theory Spec2Isabelle
  imports Main "HOL-Library.Multiset"
begin

section \<open>Job sequencing with deadlines\<close>

text \<open>
  A development over \<^verbatim>\<open>greedy_algorithms/job_sequencing_algorithm.cpp\<close>: the
  \<^verbatim>\<open>Job\<close> structure, the comparator \<^verbatim>\<open>jobComparator\<close> and the function
  \<^verbatim>\<open>getJobScheduling\<close>.
\<close>

subsection \<open>Data\<close>

text \<open>
  \<^verbatim>\<open>struct Job { char id; int dead; int profit; }\<close>. The field \<^verbatim>\<open>id\<close> is named
  \<open>job_id\<close> here, since \<open>id\<close> is the identity function of HOL.

  The two \<^verbatim>\<open>int\<close> fields are modelled by unbounded integers. The only arithmetic
  the function performs on them is the subtraction of two deadlines and the decrement of
  a positive counter; lemma \<open>slot_available_range\<close> below shows that for deadlines
  between 0 and \<^verbatim>\<open>INT_MAX\<close> every value computed stays between 0 and
  \<^verbatim>\<open>INT_MAX\<close>, so on such inputs the 32-bit program computes what the model computes.
  The subtraction can leave the range of \<^verbatim>\<open>int\<close> only when a deadline is negative;
  signed overflow is undefined behaviour in C++, and the model does not describe it.
  Profits are only compared.
\<close>

record Job =
  job_id :: char
  dead :: int
  profit :: int

text \<open>\<^verbatim>\<open>bool jobComparator(Job const &a, Job const &b) { return (a.profit < b.profit); }\<close>\<close>

definition jobComparator :: "Job \<Rightarrow> Job \<Rightarrow> bool" where
  "jobComparator a b = (profit a < profit b)"

text \<open>The lambda handed to both calls of \<^verbatim>\<open>std::sort\<close>:
  \<^verbatim>\<open>[](Job a, Job b) { return a.dead < b.dead; }\<close>\<close>

definition deadComparator :: "Job \<Rightarrow> Job \<Rightarrow> bool" where
  "deadComparator a b = (dead a < dead b)"

subsection \<open>The standard library, as parameters\<close>

text \<open>
  \<^verbatim>\<open>std::sort\<close> is not a stable sort, and which of several jobs of equal profit
  \<^verbatim>\<open>std::priority_queue::top\<close> returns is left to the implementation. Both are
  parameters of the model, constrained by what the C++ standard promises.

  \<open>srt\<close> stands for \<^verbatim>\<open>std::sort(first, last, deadComparator)\<close>: the result is a
  rearrangement of the input in which no element is followed by one that compares less.
\<close>

definition std_sort_ok :: "(Job list \<Rightarrow> Job list) \<Rightarrow> bool" where
  "std_sort_ok srt \<longleftrightarrow>
     (\<forall>xs. mset (srt xs) = mset xs \<and> sorted_wrt (\<lambda>a b. \<not> deadComparator b a) (srt xs))"

text \<open>
  The operations of \<^verbatim>\<open>std::priority_queue<Job, std::vector<Job>, decltype(&jobComparator)>\<close>
  that the function calls, over any representation \<open>'q\<close> of the queue.
\<close>

record 'q priority_queue =
  pq_new :: 'q
  pq_push :: "Job \<Rightarrow> 'q \<Rightarrow> 'q"
  pq_top :: "'q \<Rightarrow> Job"
  pq_pop :: "'q \<Rightarrow> 'q"
  pq_size :: "'q \<Rightarrow> nat"

text \<open>
  The contract of the queue, with \<open>\<alpha> q\<close> the multiset of jobs held by \<open>q\<close> and
  \<open>I\<close> the invariant of the representation: a new queue is empty, \<open>push\<close> adds one
  job, \<open>size\<close> counts the jobs, and on a non-empty queue \<open>top\<close> is a job of the queue
  that does not compare less (by \<open>jobComparator\<close>) than any job of the queue, which
  \<open>pop\<close> removes.
\<close>

definition priority_queue_ok ::
    "'q priority_queue \<Rightarrow> ('q \<Rightarrow> Job multiset) \<Rightarrow> ('q \<Rightarrow> bool) \<Rightarrow> bool" where
  "priority_queue_ok P \<alpha> I \<longleftrightarrow>
     I (pq_new P) \<and> \<alpha> (pq_new P) = {#} \<and>
     (\<forall>q j. I q \<longrightarrow> I (pq_push P j q) \<and> \<alpha> (pq_push P j q) = add_mset j (\<alpha> q)) \<and>
     (\<forall>q. I q \<longrightarrow> pq_size P q = size (\<alpha> q)) \<and>
     (\<forall>q. I q \<and> \<alpha> q \<noteq> {#} \<longrightarrow>
        pq_top P q \<in># \<alpha> q \<and> (\<forall>y \<in># \<alpha> q. \<not> jobComparator (pq_top P q) y) \<and>
        I (pq_pop P q) \<and> \<alpha> (pq_pop P q) = \<alpha> q - {#pq_top P q#})"

subsection \<open>getJobScheduling\<close>

text \<open>
  Lines 125 to 129: the number of slots between the job at index \<open>i\<close> of the sorted
  array and the job before it.
  \<^verbatim>\<open>if (i == 0) slot_available = arr[i].dead; else slot_available = arr[i].dead - arr[i - 1].dead;\<close>
  The subtraction is the exact one of the integers. It is the subtraction of the source,
  on 32-bit \<^verbatim>\<open>int\<close>, for deadlines between 0 and \<^verbatim>\<open>INT_MAX\<close>
  (lemma \<open>slot_available_range\<close>); with a negative deadline the source can overflow,
  and there this definition is not what the program computes.
\<close>

definition slot_available :: "Job list \<Rightarrow> nat \<Rightarrow> int" where
  "slot_available arr i =
     (if i = 0 then dead (arr ! i) else dead (arr ! i) - dead (arr ! (i - 1)))"

text \<open>
  Lines 135 to 145, the inner loop:
  \<^verbatim>\<open>while (slot_available > 0 && pq.size() > 0) { Job job = pq.top(); pq.pop(); slot_available--; result.push_back(job); }\<close>
  It returns the queue and the vector \<^verbatim>\<open>result\<close> as the loop leaves them.
\<close>

function pop_while :: "'q priority_queue \<Rightarrow> int \<Rightarrow> 'q \<Rightarrow> Job list \<Rightarrow> 'q \<times> Job list" where
  "pop_while P slot pq result =
     (if slot > 0 \<and> pq_size P pq > 0
      then let job = pq_top P pq;
               pq' = pq_pop P pq;
               slot' = slot - 1
           in pop_while P slot' pq' (result @ [job])
      else (pq, result))"
  by pat_completeness auto
termination
  by (relation "measure (\<lambda>(P, slot, pq, result). nat slot)") auto

text \<open>
  Lines 121 to 146, the outer loop \<^verbatim>\<open>for (int i = N - 1; i >= 0; i--)\<close>. The first
  argument after the array counts the iterations still to run: \<open>Suc i\<close> means that the
  next iteration is the one of index \<open>i\<close>, and \<open>0\<close> that \<open>i\<close> has reached \<open>-1\<close>.
  Every index read is below the length of the array.
\<close>

fun schedule_loop :: "'q priority_queue \<Rightarrow> Job list \<Rightarrow> nat \<Rightarrow> 'q \<Rightarrow> Job list \<Rightarrow> 'q \<times> Job list" where
  "schedule_loop P arr 0 pq result = (pq, result)"
| "schedule_loop P arr (Suc i) pq result =
     (let slot = slot_available arr i;
          pq1 = pq_push P (arr ! i) pq;
          (pq2, result2) = pop_while P slot pq1 result
      in schedule_loop P arr i pq2 result2)"

text \<open>
  The vector \<^verbatim>\<open>result\<close> at line 150, after the second sort: the caller's array is
  sorted (line 114), the loop runs from the last index on an empty queue and an empty
  \<^verbatim>\<open>result\<close>, and \<^verbatim>\<open>result\<close> is sorted.
\<close>

definition scheduled_jobs :: "(Job list \<Rightarrow> Job list) \<Rightarrow> 'q priority_queue \<Rightarrow> Job list \<Rightarrow> Job list" where
  "scheduled_jobs srt P arr0 =
     (let arr = srt arr0;
          (pq, result) = schedule_loop P arr (length arr) (pq_new P) []
      in srt result)"

text \<open>
  \<^verbatim>\<open>std::vector<char> getJobScheduling(std::array<Job, N> &arr)\<close>. The array is
  taken by reference and sorted in place, so the model returns two things: the array as
  the caller finds it after the call, and the vector of identifiers returned (lines 152
  to 158).
\<close>

definition getJobScheduling ::
    "(Job list \<Rightarrow> Job list) \<Rightarrow> 'q priority_queue \<Rightarrow> Job list \<Rightarrow> Job list \<times> char list" where
  "getJobScheduling srt P arr0 = (srt arr0, map job_id (scheduled_jobs srt P arr0))"

subsection \<open>One implementation of the parameters\<close>

text \<open>
  An insertion sort on the deadline (what \<^verbatim>\<open>std::sort\<close> of libstdc++ runs on fewer
  than 16 elements), and a queue kept as a list, whose \<open>top\<close> is the first job of
  greatest profit.
\<close>

definition insertion_sort :: "Job list \<Rightarrow> Job list" where
  "insertion_sort xs = sort_key dead xs"

fun list_top :: "Job list \<Rightarrow> Job" where
  "list_top [] = \<lparr>job_id = CHR ''?'', dead = 0, profit = 0\<rparr>"
| "list_top [j] = j"
| "list_top (j # k # q) = (let m = list_top (k # q) in if jobComparator j m then m else j)"

definition list_queue :: "Job list priority_queue" where
  "list_queue = \<lparr>pq_new = [], pq_push = (\<lambda>j q. q @ [j]), pq_top = list_top,
                 pq_pop = (\<lambda>q. remove1 (list_top q) q), pq_size = length\<rparr>"

text \<open>The two arrays of the function \<^verbatim>\<open>tests\<close>.\<close>

definition jobs1 :: "Job list" where
  "jobs1 = [\<lparr>job_id = CHR ''a'', dead = 2, profit = 100\<rparr>,
            \<lparr>job_id = CHR ''b'', dead = 1, profit = 19\<rparr>,
            \<lparr>job_id = CHR ''c'', dead = 2, profit = 27\<rparr>,
            \<lparr>job_id = CHR ''d'', dead = 1, profit = 25\<rparr>,
            \<lparr>job_id = CHR ''e'', dead = 3, profit = 15\<rparr>]"

definition jobs2 :: "Job list" where
  "jobs2 = [\<lparr>job_id = CHR ''x'', dead = 1, profit = 50\<rparr>,
            \<lparr>job_id = CHR ''y'', dead = 2, profit = 60\<rparr>,
            \<lparr>job_id = CHR ''z'', dead = 2, profit = 20\<rparr>,
            \<lparr>job_id = CHR ''w'', dead = 3, profit = 30\<rparr>]"

text \<open>Three jobs of deadline 1.\<close>

definition jobs3 :: "Job list" where
  "jobs3 = [\<lparr>job_id = CHR ''p'', dead = 1, profit = 10\<rparr>,
            \<lparr>job_id = CHR ''q'', dead = 1, profit = 30\<rparr>,
            \<lparr>job_id = CHR ''r'', dead = 1, profit = 20\<rparr>]"

text \<open>Two jobs whose deadlines are not positive, outside the contract of the function.\<close>

definition jobs_nonpositive :: "Job list" where
  "jobs_nonpositive = [\<lparr>job_id = CHR ''m'', dead = - 1, profit = 5\<rparr>,
                       \<lparr>job_id = CHR ''n'', dead = 0, profit = 7\<rparr>]"

section \<open>Supporting lemmas\<close>

subsection \<open>The contracts, unfolded\<close>

declare pop_while.simps [simp del]

lemma pq_new_ok:
  assumes "priority_queue_ok P \<alpha> I"
  shows "I (pq_new P)" and "\<alpha> (pq_new P) = {#}"
  using assms by (simp_all add: priority_queue_ok_def)

lemma pq_push_ok:
  assumes "priority_queue_ok P \<alpha> I" and "I q"
  shows "I (pq_push P j q)" and "\<alpha> (pq_push P j q) = add_mset j (\<alpha> q)"
  using assms by (simp_all add: priority_queue_ok_def)

lemma pq_size_ok:
  assumes "priority_queue_ok P \<alpha> I" and "I q"
  shows "pq_size P q = size (\<alpha> q)"
  using assms by (simp add: priority_queue_ok_def)

lemma pq_top_ok:
  assumes "priority_queue_ok P \<alpha> I" and "I q" and "\<alpha> q \<noteq> {#}"
  shows "pq_top P q \<in># \<alpha> q" and "\<And>y. y \<in># \<alpha> q \<Longrightarrow> profit y \<le> profit (pq_top P q)"
  using assms by (auto simp add: priority_queue_ok_def jobComparator_def not_less)

lemma pq_pop_ok:
  assumes "priority_queue_ok P \<alpha> I" and "I q" and "\<alpha> q \<noteq> {#}"
  shows "I (pq_pop P q)" and "\<alpha> (pq_pop P q) = \<alpha> q - {#pq_top P q#}"
  using assms by (simp_all add: priority_queue_ok_def)

subsection \<open>The inner loop\<close>

lemma pop_while_stop: "slot \<le> 0 \<or> pq_size P q = 0 \<Longrightarrow> pop_while P slot q res = (q, res)"
  by (subst pop_while.simps) auto

lemma pop_while_step:
  "0 < slot \<Longrightarrow> 0 < pq_size P q \<Longrightarrow>
   pop_while P slot q res = pop_while P (slot - 1) (pq_pop P q) (res @ [pq_top P q])"
  by (subst pop_while.simps) (simp add: Let_def)

lemma pop_while_spec:
  shows "priority_queue_ok P \<alpha> I \<Longrightarrow> I q \<Longrightarrow> pop_while P slot q res = (q', res') \<Longrightarrow>
    \<exists>taken. res' = res @ taken \<and> I q' \<and> \<alpha> q = \<alpha> q' + mset taken \<and>
      int (length taken) \<le> max 0 slot"
proof (induction P slot q res rule: pop_while.induct)
  case (1 P slot q res)
  note ok = "1.prems"(1) and Iq = "1.prems"(2) and run = "1.prems"(3)
  show ?case
  proof (cases "0 < slot \<and> 0 < pq_size P q")
    case False
    then have "pop_while P slot q res = (q, res)" by (intro pop_while_stop) auto
    with run Iq show ?thesis by auto
  next
    case True
    then have ne: "\<alpha> q \<noteq> {#}" using pq_size_ok [OF ok Iq] by auto
    have I': "I (pq_pop P q)" and a': "\<alpha> (pq_pop P q) = \<alpha> q - {#pq_top P q#}"
      using pq_pop_ok [OF ok Iq ne] by auto
    have top: "pq_top P q \<in># \<alpha> q" using pq_top_ok(1) [OF ok Iq ne] .
    have "pop_while P (slot - 1) (pq_pop P q) (res @ [pq_top P q]) = (q', res')"
      using run True by (simp add: pop_while_step)
    from "1.IH" [OF _ refl refl refl ok I' this] True
    obtain taken where t: "res' = (res @ [pq_top P q]) @ taken" "I q'"
      "\<alpha> (pq_pop P q) = \<alpha> q' + mset taken" "int (length taken) \<le> max 0 (slot - 1)"
      by auto
    have "\<alpha> q = \<alpha> q' + mset (pq_top P q # taken)"
      using t(3) a' top by (metis add_mset_add_single insert_DiffM mset.simps(2) union_mset_add_mset_right)
    moreover have "int (length (pq_top P q # taken)) \<le> max 0 slot" using t(4) True by auto
    ultimately show ?thesis using t(1,2) by (intro exI [of _ "pq_top P q # taken"]) simp
  qed
qed


text \<open>
  The inner loop commits as many jobs as its counter allows and the queue holds.
\<close>

lemma pop_while_length:
  shows "priority_queue_ok P \<alpha> I \<Longrightarrow> I q \<Longrightarrow>
    \<exists>q' taken. pop_while P slot q res = (q', res @ taken) \<and> I q' \<and>
      \<alpha> q = \<alpha> q' + mset taken \<and> length taken = min (nat slot) (size (\<alpha> q))"
proof (induction P slot q res rule: pop_while.induct)
  case (1 P slot q res)
  note ok = "1.prems"(1) and Iq = "1.prems"(2)
  show ?case
  proof (cases "0 < slot \<and> 0 < pq_size P q")
    case False
    then have "slot \<le> 0 \<or> pq_size P q = 0" by auto
    then have "pop_while P slot q res = (q, res @ [])" by (simp add: pop_while_stop)
    moreover have "length ([] :: Job list) = min (nat slot) (size (\<alpha> q))"
      using False pq_size_ok [OF ok Iq] by auto
    ultimately show ?thesis using Iq by (intro exI [of _ q] exI [of _ "[]"]) simp
  next
    case True
    then have ne: "\<alpha> q \<noteq> {#}" using pq_size_ok [OF ok Iq] by auto
    have I': "I (pq_pop P q)" and a': "\<alpha> (pq_pop P q) = \<alpha> q - {#pq_top P q#}"
      using pq_pop_ok [OF ok Iq ne] by auto
    have top: "pq_top P q \<in># \<alpha> q" using pq_top_ok(1) [OF ok Iq ne] .
    from "1.IH" [OF _ refl refl refl ok I'] True
    obtain q' taken where t:
      "pop_while P (slot - 1) (pq_pop P q) (res @ [pq_top P q]) = (q', (res @ [pq_top P q]) @ taken)"
      "I q'" "\<alpha> (pq_pop P q) = \<alpha> q' + mset taken"
      "length taken = min (nat (slot - 1)) (size (\<alpha> (pq_pop P q)))"
      by blast
    have run: "pop_while P slot q res = (q', res @ (pq_top P q # taken))"
      using t(1) True by (simp add: pop_while_step)
    have m: "\<alpha> q = \<alpha> q' + mset (pq_top P q # taken)"
      using t(3) a' top by (metis add_mset_add_single insert_DiffM mset.simps(2) union_mset_add_mset_right)
    have "size (\<alpha> (pq_pop P q)) = size (\<alpha> q) - 1" using a' top by (simp add: size_Diff_singleton)
    moreover have "0 < size (\<alpha> q)" using ne by (simp add: nonempty_has_size)
    ultimately have "length (pq_top P q # taken) = min (nat slot) (size (\<alpha> q))"
      using t(4) True by auto
    with run m t(2) show ?thesis by blast
  qed
qed

subsection \<open>The outer loop\<close>

text \<open>
  Every job pushed is either still in the queue or in \<^verbatim>\<open>result\<close>: after the
  iterations of the indices \<open>k\<close> and above, the queue and \<^verbatim>\<open>result\<close> together
  hold the jobs of \<open>drop k arr\<close>.
\<close>

lemma schedule_loop_mset:
  assumes ok: "priority_queue_ok P \<alpha> I"
  shows "k \<le> length arr \<Longrightarrow> I q \<Longrightarrow> \<alpha> q + mset res = mset (drop k arr) \<Longrightarrow>
    schedule_loop P arr k q res = (q', res') \<Longrightarrow>
    I q' \<and> \<alpha> q' + mset res' = mset arr"
proof (induction k arbitrary: q res)
  case 0
  then show ?case by simp
next
  case (Suc i)
  obtain q2 res2 where pw:
      "pop_while P (slot_available arr i) (pq_push P (arr ! i) q) res = (q2, res2)"
    by (cases "pop_while P (slot_available arr i) (pq_push P (arr ! i) q) res")
  have I1: "I (pq_push P (arr ! i) q)"
    and a1: "\<alpha> (pq_push P (arr ! i) q) = add_mset (arr ! i) (\<alpha> q)"
    using pq_push_ok [OF ok Suc.prems(2)] by auto
  from pop_while_spec [OF ok I1 pw]
  obtain taken where t: "res2 = res @ taken" "I q2"
      "\<alpha> (pq_push P (arr ! i) q) = \<alpha> q2 + mset taken"
    by auto
  have "drop i arr = arr ! i # drop (Suc i) arr"
    using Suc.prems(1) by (simp add: Cons_nth_drop_Suc)
  then have "mset (drop i arr) = add_mset (arr ! i) (\<alpha> q + mset res)"
    using Suc.prems(3) by simp
  also have "\<dots> = \<alpha> q2 + mset res2"
    using t(1,3) a1 by (simp add: ac_simps)
  finally have inv: "\<alpha> q2 + mset res2 = mset (drop i arr)" by simp
  have "schedule_loop P arr i q2 res2 = (q', res')"
    using Suc.prems(4) pw by (simp add: Let_def)
  from Suc.IH [OF _ t(2) inv this] Suc.prems(1) show ?case by simp
qed

lemma sorted_nth_drop:
  assumes "sorted (map dead arr)" and "i < length arr" and "j \<in> set (drop i arr)"
  shows "dead (arr ! i) \<le> dead j"
proof -
  from assms(3) obtain n where n: "n < length (drop i arr)" "j = drop i arr ! n"
    by (auto simp: in_set_conv_nth)
  then have "j = arr ! (i + n)" and "i + n < length arr" by auto
  moreover have "map dead arr ! i \<le> map dead arr ! (i + n)"
    using assms(1) \<open>i + n < length arr\<close> by (intro sorted_nth_mono) auto
  ultimately show ?thesis using assms(2) by simp
qed

lemma slot_available_nonneg:
  assumes "sorted (map dead arr)" and "i < length arr" and "0 \<le> dead (arr ! 0)"
  shows "0 \<le> slot_available arr i"
proof (cases i)
  case 0
  then show ?thesis using assms(3) by (simp add: slot_available_def)
next
  case (Suc n)
  have "map dead arr ! n \<le> map dead arr ! i"
    using assms(1,2) Suc by (intro sorted_nth_mono) auto
  then show ?thesis using Suc assms(2) by (simp add: slot_available_def)
qed

text \<open>
  On a sorted array of non-negative deadlines, the iterations of the indices \<open>k\<close> and
  above commit, for every \<open>t\<close>, at most \<open>t - dead (arr ! (k - 1))\<close> jobs of deadline
  at most \<open>t\<close>: the jobs committed in an iteration have the deadline of that index or a
  later one, and there are at most \<open>slot_available\<close> of them.
\<close>

lemma schedule_loop_count:
  assumes ok: "priority_queue_ok P \<alpha> I"
    and srt: "sorted (map dead arr)"
    and nonneg: "arr \<noteq> [] \<Longrightarrow> 0 \<le> dead (arr ! 0)"
  shows "k \<le> length arr \<Longrightarrow> I q \<Longrightarrow> \<alpha> q + mset res = mset (drop k arr) \<Longrightarrow>
    (\<forall>t. int (length (filter (\<lambda>j. dead j \<le> t) res))
           \<le> max 0 (t - (if k = 0 then 0 else dead (arr ! (k - 1))))) \<Longrightarrow>
    schedule_loop P arr k q res = (q', res') \<Longrightarrow>
    (\<forall>t. int (length (filter (\<lambda>j. dead j \<le> t) res')) \<le> max 0 t)"
proof (induction k arbitrary: q res)
  case 0
  then show ?case by simp
next
  case (Suc i)
  let ?s = "slot_available arr i"
  let ?b = "if i = 0 then 0 else dead (arr ! (i - 1))"
  have i: "i < length arr" using Suc.prems(1) by simp
  obtain q2 res2 where pw: "pop_while P ?s (pq_push P (arr ! i) q) res = (q2, res2)"
    by (cases "pop_while P ?s (pq_push P (arr ! i) q) res")
  have I1: "I (pq_push P (arr ! i) q)"
    and a1: "\<alpha> (pq_push P (arr ! i) q) = add_mset (arr ! i) (\<alpha> q)"
    using pq_push_ok [OF ok Suc.prems(2)] by auto
  from pop_while_spec [OF ok I1 pw]
  obtain taken where t: "res2 = res @ taken" "I q2"
      "\<alpha> (pq_push P (arr ! i) q) = \<alpha> q2 + mset taken" "int (length taken) \<le> max 0 ?s"
    by auto
  have dr: "drop i arr = arr ! i # drop (Suc i) arr"
    using i by (simp add: Cons_nth_drop_Suc)
  then have "mset (drop i arr) = add_mset (arr ! i) (\<alpha> q + mset res)"
    using Suc.prems(3) by simp
  also have "\<dots> = \<alpha> q2 + mset res2"
    using t(1,3) a1 by (simp add: ac_simps)
  finally have inv: "\<alpha> q2 + mset res2 = mset (drop i arr)" by simp
  have "mset taken \<subseteq># mset (drop i arr)"
    using inv t(1) by (metis mset_append mset_subset_eq_add_right subset_mset.dual_order.trans union_commute)
  then have "set taken \<subseteq> set (drop i arr)" by (metis set_mset_mono set_mset_mset)
  then have late: "\<forall>j \<in> set taken. dead (arr ! i) \<le> dead j"
    using sorted_nth_drop [OF srt i] by auto
  have "arr \<noteq> []" using i by auto
  then have s0: "0 \<le> ?s" using slot_available_nonneg [OF srt i] nonneg by simp
  have s: "?s = dead (arr ! i) - ?b" by (simp add: slot_available_def)
  have cnt: "int (length (filter (\<lambda>j. dead j \<le> t) res2)) \<le> max 0 (t - ?b)" for t
  proof (cases "t < dead (arr ! i)")
    case True
    then have "filter (\<lambda>j. dead j \<le> t) taken = []" using late by (fastforce simp: filter_empty_conv)
    moreover have "int (length (filter (\<lambda>j. dead j \<le> t) res)) \<le> 0"
      using Suc.prems(4) [rule_format, of t] True by simp
    ultimately show ?thesis using t(1) by simp
  next
    case False
    have "int (length (filter (\<lambda>j. dead j \<le> t) taken)) \<le> int (length taken)"
      by simp
    also have "\<dots> \<le> ?s" using t(4) s0 by simp
    finally have 1: "int (length (filter (\<lambda>j. dead j \<le> t) taken)) \<le> dead (arr ! i) - ?b"
      using s by simp
    have 2: "int (length (filter (\<lambda>j. dead j \<le> t) res)) \<le> t - dead (arr ! i)"
      using Suc.prems(4) [rule_format, of t] False by simp
    show ?thesis using 1 2 t(1) by simp
  qed
  have "schedule_loop P arr i q2 res2 = (q', res')"
    using Suc.prems(5) pw by (simp add: Let_def)
  from Suc.IH [OF _ t(2) inv _ this] cnt i show ?case by simp
qed

lemma sorted_position_le:
  assumes "sorted (map dead rs)"
    and "\<forall>t. int (length (filter (\<lambda>j. dead j \<le> t) rs)) \<le> max 0 t"
    and "p < length rs"
  shows "int (p + 1) \<le> dead (rs ! p)"
proof -
  let ?t = "dead (rs ! p)"
  have "\<forall>j \<in> set (take (Suc p) rs). dead j \<le> ?t"
  proof
    fix j assume "j \<in> set (take (Suc p) rs)"
    then obtain n where n: "n < Suc p" "j = rs ! n"
      using assms(3) by (auto simp: in_set_conv_nth)
    have "map dead rs ! n \<le> map dead rs ! p"
      using assms(1,3) n(1) by (intro sorted_nth_mono) auto
    then show "dead j \<le> ?t" using n assms(3) by simp
  qed
  then have "filter (\<lambda>j. dead j \<le> ?t) (take (Suc p) rs) = take (Suc p) rs"
    by (simp add: filter_id_conv)
  moreover have "filter (\<lambda>j. dead j \<le> ?t) rs
      = filter (\<lambda>j. dead j \<le> ?t) (take (Suc p) rs) @ filter (\<lambda>j. dead j \<le> ?t) (drop (Suc p) rs)"
    by (metis append_take_drop_id filter_append)
  ultimately have "Suc p \<le> length (filter (\<lambda>j. dead j \<le> ?t) rs)"
    using assms(3) by simp
  with assms(2) [rule_format, of ?t] show ?thesis by simp
qed

subsection \<open>The sort\<close>

lemma std_sort_mset: "std_sort_ok srt \<Longrightarrow> mset (srt xs) = mset xs"
  by (simp add: std_sort_ok_def)

lemma std_sort_sorted: "std_sort_ok srt \<Longrightarrow> sorted (map dead (srt xs))"
  by (simp add: std_sort_ok_def deadComparator_def sorted_map not_less)

lemma std_sort_length: "std_sort_ok srt \<Longrightarrow> length (srt xs) = length xs"
  by (metis std_sort_mset size_mset)

lemma std_sort_set: "std_sort_ok srt \<Longrightarrow> set (srt xs) = set xs"
  by (metis std_sort_mset set_mset_mset)

lemma std_sort_Nil: "std_sort_ok srt \<Longrightarrow> srt [] = []"
  using std_sort_mset [of srt "[]"] by simp

subsection \<open>The implementation of the parameters meets the contracts\<close>

lemma insertion_sort_ok: "std_sort_ok insertion_sort"
  unfolding std_sort_ok_def insertion_sort_def deadComparator_def
proof (intro allI conjI)
  fix xs :: "Job list"
  show "mset (sort_key dead xs) = mset xs" by simp
  show "sorted_wrt (\<lambda>a b. \<not> dead b < dead a) (sort_key dead xs)"
    using sorted_sort_key [of dead xs] by (simp add: sorted_map not_less)
qed

lemma list_top_in: "q \<noteq> [] \<Longrightarrow> list_top q \<in> set q"
  by (induction q rule: list_top.induct) (auto simp: Let_def)

lemma list_top_max: "y \<in> set q \<Longrightarrow> \<not> jobComparator (list_top q) y"
  by (induction q rule: list_top.induct) (auto simp: Let_def jobComparator_def)

lemma list_queue_ok: "priority_queue_ok list_queue mset (\<lambda>q. True)"
  by (simp add: priority_queue_ok_def list_queue_def list_top_in list_top_max)

subsection \<open>The whole function\<close>

lemma scheduled_jobs_run:
  assumes srt: "std_sort_ok srt" and ok: "priority_queue_ok P \<alpha> I"
  shows "\<exists>q res. schedule_loop P (srt arr0) (length arr0) (pq_new P) [] = (q, res) \<and>
    scheduled_jobs srt P arr0 = srt res \<and> \<alpha> q + mset res = mset arr0"
proof -
  obtain q res where run: "schedule_loop P (srt arr0) (length (srt arr0)) (pq_new P) [] = (q, res)"
    by (cases "schedule_loop P (srt arr0) (length (srt arr0)) (pq_new P) []")
  have "I q \<and> \<alpha> q + mset res = mset (srt arr0)"
    using schedule_loop_mset [OF ok _ pq_new_ok(1) [OF ok] _ run] pq_new_ok(2) [OF ok] by simp
  then have "\<alpha> q + mset res = mset arr0" using std_sort_mset [OF srt] by simp
  moreover have "scheduled_jobs srt P arr0 = srt res"
    using run by (simp add: scheduled_jobs_def)
  ultimately show ?thesis using run std_sort_length [OF srt, of arr0] by simp
qed

lemma scheduled_jobs_subset:
  assumes "std_sort_ok srt" and "priority_queue_ok P \<alpha> I"
  shows "mset (scheduled_jobs srt P arr0) \<subseteq># mset arr0"
proof -
  from scheduled_jobs_run [OF assms] obtain q res where
    r: "scheduled_jobs srt P arr0 = srt res" "\<alpha> q + mset res = mset arr0" by blast
  have "mset res \<subseteq># mset arr0" unfolding r(2) [symmetric] by simp
  then show ?thesis using r(1) std_sort_mset [OF assms(1)] by simp
qed

lemma scheduled_jobs_count:
  assumes srt: "std_sort_ok srt" and ok: "priority_queue_ok P \<alpha> I"
    and nonneg: "\<forall>j \<in> set arr0. 0 \<le> dead j"
  shows "int (length (filter (\<lambda>j. dead j \<le> t) (scheduled_jobs srt P arr0))) \<le> max 0 t"
proof -
  from scheduled_jobs_run [OF srt ok] obtain q res where
    r: "schedule_loop P (srt arr0) (length arr0) (pq_new P) [] = (q, res)"
       "scheduled_jobs srt P arr0 = srt res" by blast
  have 0: "0 \<le> dead (srt arr0 ! 0)" if "srt arr0 \<noteq> []"
  proof -
    have "srt arr0 ! 0 \<in> set (srt arr0)" using that by simp
    then show ?thesis using nonneg std_sort_set [OF srt, of arr0] by simp
  qed
  have len: "length arr0 \<le> length (srt arr0)" using std_sort_length [OF srt, of arr0] by simp
  have start: "\<alpha> (pq_new P) + mset [] = mset (drop (length arr0) (srt arr0))"
    using pq_new_ok(2) [OF ok] std_sort_length [OF srt, of arr0] by simp
  have "\<forall>t. int (length (filter (\<lambda>j. dead j \<le> t) res)) \<le> max 0 t"
  proof (rule schedule_loop_count [OF ok std_sort_sorted [OF srt] 0 len pq_new_ok(1) [OF ok] start _ r(1)])
    show "srt arr0 \<noteq> [] \<Longrightarrow> srt arr0 \<noteq> []" .
    show "\<forall>t. int (length (filter (\<lambda>j. dead j \<le> t) []))
      \<le> max 0 (t - (if length arr0 = 0 then 0 else dead (srt arr0 ! (length arr0 - 1))))"
      by simp
  qed
  moreover have "length (filter (\<lambda>j. dead j \<le> t) (srt res)) = length (filter (\<lambda>j. dead j \<le> t) res)"
  proof -
    have "mset (filter (\<lambda>j. dead j \<le> t) (srt res)) = mset (filter (\<lambda>j. dead j \<le> t) res)"
      by (simp add: std_sort_mset [OF srt])
    then show ?thesis by (rule mset_eq_length)
  qed
  ultimately show ?thesis using r(2) by simp
qed

text \<open>
  A list whose multiset is included in the multiset of another list is a selection of
  distinct positions of that list.
\<close>

lemma mset_subset_injection:
  "mset xs \<subseteq># mset ys \<Longrightarrow>
   \<exists>f. inj_on f {..<length xs} \<and> (\<forall>i<length xs. f i < length ys \<and> xs ! i = ys ! f i)"
proof (induction xs arbitrary: ys)
  case Nil
  show ?case by simp
next
  case (Cons x xs)
  have "x \<in># mset ys" using Cons.prems by (simp add: insert_subset_eq_iff)
  then obtain ys1 ys2 where ys: "ys = ys1 @ x # ys2" by (auto dest: split_list)
  have "mset xs \<subseteq># mset (ys1 @ ys2)" using Cons.prems ys by simp
  from Cons.IH [OF this] obtain g where inj: "inj_on g {..<length xs}"
    and g: "\<And>i. i < length xs \<Longrightarrow> g i < length (ys1 @ ys2) \<and> xs ! i = (ys1 @ ys2) ! g i"
    by blast
  define h where "h n = (if n < length ys1 then n else Suc n)" for n
  define f where "f i = (case i of 0 \<Rightarrow> length ys1 | Suc k \<Rightarrow> h (g k))" for i
  have h_nth: "(ys1 @ ys2) ! n = ys ! h n" for n
    by (simp add: ys h_def nth_append Suc_diff_le)
  have h_inj: "h m = h n \<Longrightarrow> m = n" for m n
    by (auto simp: h_def split: if_splits)
  have h_ne: "h n \<noteq> length ys1" for n by (simp add: h_def)
  have h_lt: "n < length (ys1 @ ys2) \<Longrightarrow> h n < length ys" for n by (simp add: h_def ys)
  have "inj_on f {..<length (x # xs)}"
  proof (rule inj_onI)
    fix a b assume a: "a \<in> {..<length (x # xs)}" and b: "b \<in> {..<length (x # xs)}"
      and eq: "f a = f b"
    show "a = b"
    proof (cases a)
      case 0
      then show ?thesis using eq h_ne [of "g (b - 1)"] by (cases b) (auto simp: f_def)
    next
      case (Suc k)
      show ?thesis
      proof (cases b)
        case 0
        then show ?thesis using eq Suc h_ne [of "g k"] by (simp add: f_def)
      next
        case (Suc l)
        have "g k = g l" using eq \<open>a = Suc k\<close> Suc h_inj by (simp add: f_def)
        moreover have "k \<in> {..<length xs}" "l \<in> {..<length xs}"
          using a b \<open>a = Suc k\<close> Suc by auto
        ultimately have "k = l" using inj by (auto dest: inj_onD)
        then show ?thesis using \<open>a = Suc k\<close> Suc by simp
      qed
    qed
  qed
  moreover have "\<forall>i<length (x # xs). f i < length ys \<and> (x # xs) ! i = ys ! f i"
  proof (intro allI impI)
    fix i assume i: "i < length (x # xs)"
    show "f i < length ys \<and> (x # xs) ! i = ys ! f i"
    proof (cases i)
      case 0
      then show ?thesis by (simp add: f_def ys)
    next
      case (Suc k)
      then have "k < length xs" using i by simp
      from g [OF this] show ?thesis using Suc h_nth [of "g k"] h_lt [of "g k"] by (simp add: f_def)
    qed
  qed
  ultimately show ?case by blast
qed

subsection \<open>The values computed fit the machine integers\<close>

lemma slot_available_range:
  assumes "sorted (map dead arr)" and "i < length arr"
    and "\<forall>j \<in> set arr. 0 \<le> dead j \<and> dead j \<le> 2147483647"
  shows "0 \<le> slot_available arr i \<and> slot_available arr i \<le> 2147483647"
proof -
  have 0: "0 \<le> dead (arr ! 0)" using assms(2,3) by (cases arr) auto
  have i: "dead (arr ! i) \<le> 2147483647" using assms(2,3) by simp
  have p: "0 \<le> dead (arr ! (i - 1))" using assms(2,3) by simp
  have "slot_available arr i \<le> dead (arr ! i)" using p by (simp add: slot_available_def)
  then show ?thesis using slot_available_nonneg [OF assms(1,2) 0] i by simp
qed

text \<open>The first job of a sorted array has the least deadline, the last one the greatest.\<close>

lemma sorted_nth_0_Min:
  assumes "sorted (map dead s)" and "s \<noteq> []"
  shows "dead (s ! 0) = Min (dead ` set s)"
proof (rule Min_eqI [symmetric])
  show "finite (dead ` set s)" by simp
  show "dead (s ! 0) \<in> dead ` set s" using assms(2) by simp
  fix y assume "y \<in> dead ` set s"
  then obtain n where n: "n < length s" "y = dead (s ! n)" by (auto simp: in_set_conv_nth)
  have "map dead s ! 0 \<le> map dead s ! n" using assms(1) n(1) by (intro sorted_nth_mono) auto
  then show "dead (s ! 0) \<le> y" using n assms(2) by simp
qed

lemma sorted_nth_last_Max:
  assumes "sorted (map dead s)" and "s \<noteq> []"
  shows "dead (s ! (length s - 1)) = Max (dead ` set s)"
proof (rule Max_eqI [symmetric])
  show "finite (dead ` set s)" by simp
  show "dead (s ! (length s - 1)) \<in> dead ` set s" using assms(2) by simp
  fix y assume "y \<in> dead ` set s"
  then obtain n where n: "n < length s" "y = dead (s ! n)" by (auto simp: in_set_conv_nth)
  have "map dead s ! n \<le> map dead s ! (length s - 1)"
    using assms(1) n(1) by (intro sorted_nth_mono) auto
  then show "y \<le> dead (s ! (length s - 1))" using n by simp
qed

subsection \<open>The result\<close>

lemma getJobScheduling_snd:
  "snd (getJobScheduling srt P arr) = map job_id (scheduled_jobs srt P arr)"
  by (simp add: getJobScheduling_def)

lemma scheduled_jobs_sorted:
  assumes "std_sort_ok srt"
  shows "sorted (map dead (scheduled_jobs srt P arr))"
proof -
  obtain q res where "schedule_loop P (srt arr) (length (srt arr)) (pq_new P) [] = (q, res)"
    by (cases "schedule_loop P (srt arr) (length (srt arr)) (pq_new P) []")
  then have "scheduled_jobs srt P arr = srt res" by (simp add: scheduled_jobs_def)
  then show ?thesis using std_sort_sorted [OF assms] by simp
qed

subsection \<open>Runs on the concrete arrays\<close>

text \<open>
  With the insertion sort and the list queue, the function returns a, c, e on the first
  array of \<^verbatim>\<open>tests\<close> and x, y, w on the second, as \<^verbatim>\<open>tests\<close> asserts.
\<close>

lemma test_run1: "getJobScheduling insertion_sort list_queue jobs1 =
  ([\<lparr>job_id = CHR ''b'', dead = 1, profit = 19\<rparr>,
    \<lparr>job_id = CHR ''d'', dead = 1, profit = 25\<rparr>,
    \<lparr>job_id = CHR ''a'', dead = 2, profit = 100\<rparr>,
    \<lparr>job_id = CHR ''c'', dead = 2, profit = 27\<rparr>,
    \<lparr>job_id = CHR ''e'', dead = 3, profit = 15\<rparr>], ''ace'')"
  by (simp add: getJobScheduling_def scheduled_jobs_def insertion_sort_def jobs1_def
      list_queue_def slot_available_def jobComparator_def pop_while.simps)

lemma test_run2: "getJobScheduling insertion_sort list_queue jobs2 =
  ([\<lparr>job_id = CHR ''x'', dead = 1, profit = 50\<rparr>,
    \<lparr>job_id = CHR ''y'', dead = 2, profit = 60\<rparr>,
    \<lparr>job_id = CHR ''z'', dead = 2, profit = 20\<rparr>,
    \<lparr>job_id = CHR ''w'', dead = 3, profit = 30\<rparr>], ''xyw'')"
  by (simp add: getJobScheduling_def scheduled_jobs_def insertion_sort_def jobs2_def
      list_queue_def slot_available_def jobComparator_def pop_while.simps)

lemma test_run3: "snd (getJobScheduling insertion_sort list_queue jobs3) = ''q''"
  by (simp add: getJobScheduling_def scheduled_jobs_def insertion_sort_def jobs3_def
      list_queue_def slot_available_def jobComparator_def pop_while.simps)

text \<open>
  Outside the contract: with the deadlines - 1 and 0 the first iteration finds
  0 - (- 1) = 1 slot and commits the job of deadline 0.
\<close>

lemma test_run_nonpositive:
  "snd (getJobScheduling insertion_sort list_queue jobs_nonpositive) = ''n''"
  by (simp add: getJobScheduling_def scheduled_jobs_def insertion_sort_def jobs_nonpositive_def
      list_queue_def slot_available_def jobComparator_def pop_while.simps)

subsection \<open>Single iterations of the outer loop\<close>

lemma std_sort_dead:
  assumes "std_sort_ok srt"
  shows "map dead (srt xs) = sort (map dead xs)"
proof -
  have "mset (map dead (srt xs)) = mset (map dead xs)"
    using std_sort_mset [OF assms, of xs] by (metis mset_map)
  from properties_for_sort [OF this std_sort_sorted [OF assms]] show ?thesis by simp
qed

lemma std_sort_filter:
  assumes "std_sort_ok srt"
  shows "mset (filter Q (srt xs)) = mset (filter Q xs)"
  using std_sort_mset [OF assms, of xs] by (simp only: mset_filter)

lemma in_diff_single_neq: "k \<in># M \<Longrightarrow> k \<noteq> j \<Longrightarrow> k \<in># M - {#j#}"
  by (simp add: in_diff_count)

text \<open>An iteration that finds no fresh slot only pushes its job.\<close>

lemma schedule_loop_skip:
  assumes "slot_available arr i \<le> 0"
  shows "schedule_loop P arr (Suc i) q res = schedule_loop P arr i (pq_push P (arr ! i) q) res"
  using assms by (simp add: pop_while_stop)

text \<open>An iteration that finds one fresh slot pushes its job and commits a job of greatest
  profit of the queue.\<close>

lemma schedule_loop_one:
  assumes ok: "priority_queue_ok P \<alpha> I" and Iq: "I q" and one: "slot_available arr i = 1"
  shows "\<exists>q' j. j \<in># add_mset (arr ! i) (\<alpha> q) \<and>
    (\<forall>y \<in># add_mset (arr ! i) (\<alpha> q). profit y \<le> profit j) \<and>
    I q' \<and> \<alpha> q' = add_mset (arr ! i) (\<alpha> q) - {#j#} \<and>
    schedule_loop P arr (Suc i) q res = schedule_loop P arr i q' (res @ [j])"
proof -
  let ?q1 = "pq_push P (arr ! i) q"
  have I1: "I ?q1" and a1: "\<alpha> ?q1 = add_mset (arr ! i) (\<alpha> q)"
    using pq_push_ok [OF ok Iq] by auto
  have ne: "\<alpha> ?q1 \<noteq> {#}" using a1 by simp
  have size: "0 < pq_size P ?q1" using pq_size_ok [OF ok I1] a1 by simp
  have "pop_while P 1 ?q1 res = pop_while P 0 (pq_pop P ?q1) (res @ [pq_top P ?q1])"
    using pop_while_step [of 1 P ?q1 res] size by simp
  also have "\<dots> = (pq_pop P ?q1, res @ [pq_top P ?q1])" by (simp add: pop_while_stop)
  finally have "schedule_loop P arr (Suc i) q res
      = schedule_loop P arr i (pq_pop P ?q1) (res @ [pq_top P ?q1])"
    using one by simp
  moreover have "pq_top P ?q1 \<in># add_mset (arr ! i) (\<alpha> q)"
    using pq_top_ok(1) [OF ok I1 ne] a1 by simp
  moreover have "\<forall>y \<in># add_mset (arr ! i) (\<alpha> q). profit y \<le> profit (pq_top P ?q1)"
    using pq_top_ok(2) [OF ok I1 ne] a1 by simp
  moreover have "I (pq_pop P ?q1)" "\<alpha> (pq_pop P ?q1) = add_mset (arr ! i) (\<alpha> q) - {#pq_top P ?q1#}"
    using pq_pop_ok [OF ok I1 ne] a1 by simp_all
  ultimately show ?thesis by blast
qed

lemma schedule_loop_one_unique:
  assumes ok: "priority_queue_ok P \<alpha> I" and Iq: "I q" and one: "slot_available arr i = 1"
    and M: "add_mset (arr ! i) (\<alpha> q) = M"
    and j: "j \<in># M" and max: "\<forall>y \<in># M - {#j#}. profit y < profit j"
  shows "\<exists>q'. I q' \<and> \<alpha> q' = M - {#j#} \<and>
    schedule_loop P arr (Suc i) q res = schedule_loop P arr i q' (res @ [j])"
proof -
  from schedule_loop_one [OF ok Iq one, of res] obtain q' k where
    k: "k \<in># M" "\<forall>y \<in># M. profit y \<le> profit k" "I q'" "\<alpha> q' = M - {#k#}"
      "schedule_loop P arr (Suc i) q res = schedule_loop P arr i q' (res @ [k])"
    unfolding M by blast
  have "k = j"
  proof (rule ccontr)
    assume "k \<noteq> j"
    with k(1) have "k \<in># M - {#j#}" by (rule in_diff_single_neq)
    then have "profit k < profit j" using max by blast
    then show False using k(2) j by fastforce
  qed
  then show ?thesis using k by blast
qed


lemma srt_jobs2:
  assumes srt: "std_sort_ok srt"
  shows "\<exists>p1 p2. srt jobs2 = [\<lparr>job_id = CHR ''x'', dead = 1, profit = 50\<rparr>, p1, p2,
                             \<lparr>job_id = CHR ''w'', dead = 3, profit = 30\<rparr>] \<and>
    dead p1 = 2 \<and> dead p2 = 2 \<and>
    {#p1, p2#} = {#\<lparr>job_id = CHR ''y'', dead = 2, profit = 60\<rparr>,
                  \<lparr>job_id = CHR ''z'', dead = 2, profit = 20\<rparr>#}"
proof -
  have "map dead (srt jobs2) = [1, 2, 2, 3]"
    unfolding std_sort_dead [OF srt] by (simp add: jobs2_def)
  then obtain p0 p1 p2 p3 where arr: "srt jobs2 = [p0, p1, p2, p3]"
    and d: "dead p0 = 1" "dead p1 = 2" "dead p2 = 2" "dead p3 = 3"
    by (auto simp: map_eq_Cons_conv)
  have "p0 = \<lparr>job_id = CHR ''x'', dead = 1, profit = 50\<rparr>"
    using std_sort_filter [OF srt, of "\<lambda>j. dead j = 1" jobs2] d unfolding arr
    by (simp add: jobs2_def)
  moreover have "p3 = \<lparr>job_id = CHR ''w'', dead = 3, profit = 30\<rparr>"
    using std_sort_filter [OF srt, of "\<lambda>j. dead j = 3" jobs2] d unfolding arr
    by (simp add: jobs2_def)
  moreover have "{#p1, p2#} = {#\<lparr>job_id = CHR ''y'', dead = 2, profit = 60\<rparr>,
                  \<lparr>job_id = CHR ''z'', dead = 2, profit = 20\<rparr>#}"
    using std_sort_filter [OF srt, of "\<lambda>j. dead j = 2" jobs2] d unfolding arr
    by (simp add: jobs2_def)
  ultimately show ?thesis using arr d by blast
qed

lemma schedule_loop_jobs2:
  assumes srt: "std_sort_ok srt" and ok: "priority_queue_ok P \<alpha> I"
  shows "snd (schedule_loop P (srt jobs2) 4 (pq_new P) []) =
    [\<lparr>job_id = CHR ''w'', dead = 3, profit = 30\<rparr>,
     \<lparr>job_id = CHR ''y'', dead = 2, profit = 60\<rparr>,
     \<lparr>job_id = CHR ''x'', dead = 1, profit = 50\<rparr>]"
proof -
  let ?x = "\<lparr>job_id = CHR ''x'', dead = 1, profit = 50\<rparr>"
  let ?y = "\<lparr>job_id = CHR ''y'', dead = 2, profit = 60\<rparr>"
  let ?z = "\<lparr>job_id = CHR ''z'', dead = 2, profit = 20\<rparr>"
  let ?w = "\<lparr>job_id = CHR ''w'', dead = 3, profit = 30\<rparr>"
  from srt_jobs2 [OF srt] obtain p1 p2 where arr: "srt jobs2 = [?x, p1, p2, ?w]"
    and d: "dead p1 = 2" "dead p2 = 2" and yz: "{#p1, p2#} = {#?y, ?z#}"
    by blast
  let ?arr = "[?x, p1, p2, ?w]"
  have s3: "slot_available ?arr 3 = 1" and s2: "slot_available ?arr 2 \<le> 0"
    and s1: "slot_available ?arr 1 = 1" and s0: "slot_available ?arr 0 = 1"
    using d by (simp_all add: slot_available_def)
  have n: "(4::nat) = Suc 3" "(3::nat) = Suc 2" "(2::nat) = Suc 1" "(1::nat) = Suc 0" by simp_all
  from schedule_loop_one_unique [OF ok pq_new_ok(1) [OF ok] s3, of "{#?w#}" ?w "[]"]
  obtain q3 where q3: "I q3" "\<alpha> q3 = {#}"
    "schedule_loop P ?arr (Suc 3) (pq_new P) [] = schedule_loop P ?arr 3 q3 [?w]"
    using pq_new_ok(2) [OF ok] by auto
  have step2: "schedule_loop P ?arr (Suc 2) q3 [?w]
      = schedule_loop P ?arr 2 (pq_push P p2 q3) [?w]"
    using schedule_loop_skip [OF s2, of P q3 "[?w]"] by simp
  have q2: "I (pq_push P p2 q3)" "\<alpha> (pq_push P p2 q3) = {#p2#}"
    using pq_push_ok [OF ok q3(1), of p2] q3(2) by simp_all
  from schedule_loop_one_unique [OF ok q2(1) s1, of "{#?y, ?z#}" ?y "[?w]"]
  obtain q1 where q1: "I q1" "\<alpha> q1 = {#?z#}"
    "schedule_loop P ?arr (Suc 1) (pq_push P p2 q3) [?w] = schedule_loop P ?arr 1 q1 [?w, ?y]"
    using q2(2) yz by auto
  from schedule_loop_one_unique [OF ok q1(1) s0, of "{#?x, ?z#}" ?x "[?w, ?y]"]
  obtain q0 where q0:
    "schedule_loop P ?arr (Suc 0) q1 [?w, ?y] = schedule_loop P ?arr 0 q0 [?w, ?y, ?x]"
    using q1(2) by auto
  have "schedule_loop P ?arr 4 (pq_new P) [] = (q0, [?w, ?y, ?x])"
    using q3(3) step2 q1(3) q0 unfolding n [symmetric] by simp
  then show ?thesis unfolding arr by simp
qed


lemma scheduled_jobs_eq:
  "scheduled_jobs srt P arr0
     = srt (snd (schedule_loop P (srt arr0) (length (srt arr0)) (pq_new P) []))"
  by (simp add: scheduled_jobs_def split_def Let_def)

lemma std_sort_distinct:
  assumes "std_sort_ok srt" and "distinct (map dead xs)"
  shows "srt xs = sort_key dead xs"
proof -
  have "inj_on dead (set xs)" using assms(2) by (simp add: distinct_map)
  have "mset xs = mset (srt xs)" using std_sort_mset [OF assms(1), of xs] by simp
  from sort_key_inj_key_eq [OF this \<open>inj_on dead (set xs)\<close> std_sort_sorted [OF assms(1)]]
  show ?thesis by simp
qed

lemma srt_jobs1:
  assumes srt: "std_sort_ok srt"
  shows "\<exists>p0 p1 p2 p3. srt jobs1 = [p0, p1, p2, p3, \<lparr>job_id = CHR ''e'', dead = 3, profit = 15\<rparr>] \<and>
    dead p0 = 1 \<and> dead p1 = 1 \<and> dead p2 = 2 \<and> dead p3 = 2 \<and>
    {#p0, p1#} = {#\<lparr>job_id = CHR ''b'', dead = 1, profit = 19\<rparr>,
                  \<lparr>job_id = CHR ''d'', dead = 1, profit = 25\<rparr>#} \<and>
    {#p2, p3#} = {#\<lparr>job_id = CHR ''a'', dead = 2, profit = 100\<rparr>,
                  \<lparr>job_id = CHR ''c'', dead = 2, profit = 27\<rparr>#}"
proof -
  have "map dead (srt jobs1) = [1, 1, 2, 2, 3]"
    unfolding std_sort_dead [OF srt] by (simp add: jobs1_def)
  then obtain p0 p1 p2 p3 p4 where arr: "srt jobs1 = [p0, p1, p2, p3, p4]"
    and d: "dead p0 = 1" "dead p1 = 1" "dead p2 = 2" "dead p3 = 2" "dead p4 = 3"
    by (auto simp: map_eq_Cons_conv)
  have "p4 = \<lparr>job_id = CHR ''e'', dead = 3, profit = 15\<rparr>"
    using std_sort_filter [OF srt, of "\<lambda>j. dead j = 3" jobs1] d unfolding arr
    by (simp add: jobs1_def)
  moreover have "{#p0, p1#} = {#\<lparr>job_id = CHR ''b'', dead = 1, profit = 19\<rparr>,
                  \<lparr>job_id = CHR ''d'', dead = 1, profit = 25\<rparr>#}"
    using std_sort_filter [OF srt, of "\<lambda>j. dead j = 1" jobs1] d unfolding arr
    by (simp add: jobs1_def)
  moreover have "{#p2, p3#} = {#\<lparr>job_id = CHR ''a'', dead = 2, profit = 100\<rparr>,
                  \<lparr>job_id = CHR ''c'', dead = 2, profit = 27\<rparr>#}"
    using std_sort_filter [OF srt, of "\<lambda>j. dead j = 2" jobs1] d unfolding arr
    by (simp add: jobs1_def)
  ultimately show ?thesis using arr d by blast
qed

lemma schedule_loop_jobs1:
  assumes srt: "std_sort_ok srt" and ok: "priority_queue_ok P \<alpha> I"
  shows "snd (schedule_loop P (srt jobs1) 5 (pq_new P) []) =
    [\<lparr>job_id = CHR ''e'', dead = 3, profit = 15\<rparr>,
     \<lparr>job_id = CHR ''a'', dead = 2, profit = 100\<rparr>,
     \<lparr>job_id = CHR ''c'', dead = 2, profit = 27\<rparr>]"
proof -
  let ?a = "\<lparr>job_id = CHR ''a'', dead = 2, profit = 100\<rparr>"
  let ?b = "\<lparr>job_id = CHR ''b'', dead = 1, profit = 19\<rparr>"
  let ?c = "\<lparr>job_id = CHR ''c'', dead = 2, profit = 27\<rparr>"
  let ?d = "\<lparr>job_id = CHR ''d'', dead = 1, profit = 25\<rparr>"
  let ?e = "\<lparr>job_id = CHR ''e'', dead = 3, profit = 15\<rparr>"
  from srt_jobs1 [OF srt] obtain p0 p1 p2 p3 where arr: "srt jobs1 = [p0, p1, p2, p3, ?e]"
    and d: "dead p0 = 1" "dead p1 = 1" "dead p2 = 2" "dead p3 = 2"
    and bd: "{#p0, p1#} = {#?b, ?d#}" and ac: "{#p2, p3#} = {#?a, ?c#}"
    by blast
  let ?arr = "[p0, p1, p2, p3, ?e]"
  have s4: "slot_available ?arr 4 = 1" and s3: "slot_available ?arr 3 \<le> 0"
    and s2: "slot_available ?arr 2 = 1" and s1: "slot_available ?arr 1 \<le> 0"
    and s0: "slot_available ?arr 0 = 1"
    using d by (simp_all add: slot_available_def)
  have n: "(5::nat) = Suc 4" "(4::nat) = Suc 3" "(3::nat) = Suc 2" "(2::nat) = Suc 1"
    "(1::nat) = Suc 0" by simp_all
  from schedule_loop_one_unique [OF ok pq_new_ok(1) [OF ok] s4, of "{#?e#}" ?e "[]"]
  obtain q4 where q4: "I q4" "\<alpha> q4 = {#}"
    "schedule_loop P ?arr (Suc 4) (pq_new P) [] = schedule_loop P ?arr 4 q4 [?e]"
    using pq_new_ok(2) [OF ok] by auto
  have step3: "schedule_loop P ?arr (Suc 3) q4 [?e]
      = schedule_loop P ?arr 3 (pq_push P p3 q4) [?e]"
    using schedule_loop_skip [OF s3, of P q4 "[?e]"] by simp
  have q3: "I (pq_push P p3 q4)" "\<alpha> (pq_push P p3 q4) = {#p3#}"
    using pq_push_ok [OF ok q4(1), of p3] q4(2) by simp_all
  from schedule_loop_one_unique [OF ok q3(1) s2, of "{#?a, ?c#}" ?a "[?e]"]
  obtain q2 where q2: "I q2" "\<alpha> q2 = {#?c#}"
    "schedule_loop P ?arr (Suc 2) (pq_push P p3 q4) [?e] = schedule_loop P ?arr 2 q2 [?e, ?a]"
    using q3(2) ac by auto
  have step1: "schedule_loop P ?arr (Suc 1) q2 [?e, ?a]
      = schedule_loop P ?arr 1 (pq_push P p1 q2) [?e, ?a]"
    using schedule_loop_skip [OF s1, of P q2 "[?e, ?a]"] by simp
  have q1: "I (pq_push P p1 q2)" "\<alpha> (pq_push P p1 q2) = {#p1, ?c#}"
    using pq_push_ok [OF ok q2(1), of p1] q2(2) by simp_all
  have M0: "add_mset (?arr ! 0) (\<alpha> (pq_push P p1 q2)) = {#?b, ?d, ?c#}"
  proof -
    have "add_mset (?arr ! 0) (\<alpha> (pq_push P p1 q2)) = {#p0, p1#} + {#?c#}"
      using q1(2) by simp
    then show ?thesis unfolding bd by simp
  qed
  from schedule_loop_one_unique [OF ok q1(1) s0 M0, of ?c "[?e, ?a]"]
  obtain q0 where q0:
    "schedule_loop P ?arr (Suc 0) (pq_push P p1 q2) [?e, ?a] = schedule_loop P ?arr 0 q0 [?e, ?a, ?c]"
    by auto
  have "schedule_loop P ?arr 5 (pq_new P) [] = (q0, [?e, ?a, ?c])"
    using q4(3) step3 q2(3) step1 q0 unfolding n [symmetric] by simp
  then show ?thesis unfolding arr by simp
qed

lemma std_sort_single: "std_sort_ok srt \<Longrightarrow> srt [j] = [j]"
  using std_sort_mset [of srt "[j]"] by simp

section \<open>The claims\<close>

text \<open>
  C1. The claim gives the last job of the sorted order (the job of greatest deadline) its
  own deadline as its count of fresh slots. The source does this for the index 0, the
  first job of the sorted order (the job of least deadline): on the second array of
  \<^verbatim>\<open>tests\<close> the last job, w of deadline 3, gets 3 - 2 = 1 slot, not 3 (the second
  theorem after this text).

  What holds, for every input whose deadlines lie between 0 and \<^verbatim>\<open>INT_MAX\<close>, where
  the subtraction of line 128 cannot overflow (every input within the contract is of this
  kind). Let \<open>A\<close> be the sorted array the loop reads and \<open>c\<close> the deadline of the job
  itself for the first job of the sorted order (index 0), and for every other job its
  deadline minus the deadline of the job before it in the sorted order. Then \<open>c\<close> is the
  count computed for the job at index \<open>i\<close>, it fits a 32-bit \<^verbatim>\<open>int\<close>, the iteration
  of index \<open>i\<close> of the loop, from any queue and any \<^verbatim>\<open>result\<close>, pushes the job and
  runs the inner loop with the counter \<open>c\<close>, and that inner loop commits exactly as many
  jobs as the lesser of \<open>c\<close> and the number of jobs in the queue after the push. The first
  job of the sorted order has the least deadline of the input, the last one the greatest.
\<close>
theorem schedule_loop_fresh_slots:
  assumes srt: "std_sort_ok srt" and ok: "priority_queue_ok P \<alpha> I" and Iq: "I pq"
    and i: "i < length arr"
    and range: "\<forall>j \<in> set arr. 0 \<le> dead j \<and> dead j \<le> 2147483647"
    and A: "A = fst (getJobScheduling srt P arr)"
    and c: "c = (if i = 0 then dead (A ! 0) else dead (A ! i) - dead (A ! (i - 1)))"
  shows "slot_available A i = c \<and> 0 \<le> c \<and> c \<le> 2147483647 \<and>
    schedule_loop P A (Suc i) pq result =
      (case pop_while P c (pq_push P (A ! i) pq) result of
         (pq2, result2) \<Rightarrow> schedule_loop P A i pq2 result2) \<and>
    (\<exists>pq2 taken. pop_while P c (pq_push P (A ! i) pq) result = (pq2, result @ taken) \<and>
       length taken = min (nat c) (Suc (size (\<alpha> pq)))) \<and>
    dead (A ! 0) = Min (dead ` set arr) \<and>
    dead (A ! (length arr - 1)) = Max (dead ` set arr)"
proof -
  have As: "A = srt arr" using A by (simp add: getJobScheduling_def)
  have len: "length A = length arr" unfolding As by (rule std_sort_length [OF srt])
  have set: "set A = set arr" unfolding As by (rule std_sort_set [OF srt])
  have sorted: "sorted (map dead A)" unfolding As by (rule std_sort_sorted [OF srt])
  have ne: "A \<noteq> []" using i len by auto
  have iA: "i < length A" using i len by simp
  have rangeA: "\<forall>j \<in> set A. 0 \<le> dead j \<and> dead j \<le> 2147483647" using range set by simp
  have count: "slot_available A i = c" using c by (simp add: slot_available_def)
  have bounds: "0 \<le> c \<and> c \<le> 2147483647"
    using slot_available_range [OF sorted iA rangeA] count by simp
  have step: "schedule_loop P A (Suc i) pq result =
      (case pop_while P c (pq_push P (A ! i) pq) result of
         (pq2, result2) \<Rightarrow> schedule_loop P A i pq2 result2)"
    using count by (simp add: Let_def)
  have I1: "I (pq_push P (A ! i) pq)"
    and a1: "\<alpha> (pq_push P (A ! i) pq) = add_mset (A ! i) (\<alpha> pq)"
    using pq_push_ok [OF ok Iq] by auto
  from pop_while_length [OF ok I1, of c result]
  have commits: "\<exists>pq2 taken. pop_while P c (pq_push P (A ! i) pq) result = (pq2, result @ taken) \<and>
       length taken = min (nat c) (Suc (size (\<alpha> pq)))"
    using a1 by auto
  have "dead (A ! 0) = Min (dead ` set arr)"
    using sorted_nth_0_Min [OF sorted ne] set by simp
  moreover have "dead (A ! (length arr - 1)) = Max (dead ` set arr)"
    using sorted_nth_last_Max [OF sorted ne] set len by simp
  ultimately show ?thesis using count bounds step commits by blast
qed

theorem schedule_loop_fresh_slots_witness:
  "std_sort_ok insertion_sort \<and> priority_queue_ok list_queue mset (\<lambda>q. True) \<and>
   list_all (\<lambda>j. 0 \<le> dead j \<and> dead j \<le> 2147483647) jobs2 \<and>
   slot_available (fst (getJobScheduling insertion_sort list_queue jobs2)) 0 = 1 \<and>
   slot_available (fst (getJobScheduling insertion_sort list_queue jobs2)) 3 = 3 - 2 \<and>
   schedule_loop list_queue (fst (getJobScheduling insertion_sort list_queue jobs2)) (Suc 3) [] []
     = schedule_loop list_queue (fst (getJobScheduling insertion_sort list_queue jobs2)) 3 []
         [\<lparr>job_id = CHR ''w'', dead = 3, profit = 30\<rparr>] \<and>
   Min (dead ` set jobs2) = 1 \<and> Max (dead ` set jobs2) = 3"
proof -
  let ?A = "fst (getJobScheduling insertion_sort list_queue jobs2)"
  have i0: "0 < length jobs2" and i3: "3 < length jobs2" by (simp_all add: jobs2_def)
  have range: "\<forall>j \<in> set jobs2. 0 \<le> dead j \<and> dead j \<le> 2147483647"
    by (simp add: jobs2_def)
  have c0: "1 = (if (0::nat) = 0 then dead (?A ! 0) else dead (?A ! 0) - dead (?A ! (0 - 1)))"
    by (simp add: test_run2)
  have c3: "1 = (if (3::nat) = 0 then dead (?A ! 0) else dead (?A ! 3) - dead (?A ! (3 - 1)))"
    by (simp add: test_run2)
  have pw: "pop_while list_queue 1 (pq_push list_queue (?A ! 3) []) []
      = ([], [\<lparr>job_id = CHR ''w'', dead = 3, profit = 30\<rparr>])"
    unfolding test_run2 by (simp add: list_queue_def pop_while.simps)
  from schedule_loop_fresh_slots [OF insertion_sort_ok list_queue_ok TrueI i0 range refl c0, of "[]" "[]"]
  have 0: "slot_available ?A 0 = 1" "dead (?A ! 0) = Min (dead ` set jobs2)"
    "dead (?A ! (length jobs2 - 1)) = Max (dead ` set jobs2)"
    by simp_all
  from schedule_loop_fresh_slots [OF insertion_sort_ok list_queue_ok TrueI i3 range refl c3, of "[]" "[]"]
  have 3: "slot_available ?A 3 = 1"
    "schedule_loop list_queue ?A (Suc 3) [] [] =
      (case pop_while list_queue 1 (pq_push list_queue (?A ! 3) []) [] of
         (pq2, result2) \<Rightarrow> schedule_loop list_queue ?A 3 pq2 result2)"
    by simp_all
  have step: "schedule_loop list_queue ?A (Suc 3) [] []
     = schedule_loop list_queue ?A 3 [] [\<lparr>job_id = CHR ''w'', dead = 3, profit = 30\<rparr>]"
    unfolding 3(2) pw by simp
  have mm: "Min (dead ` set jobs2) = 1" "Max (dead ` set jobs2) = 3"
    using 0(2,3) by (simp_all add: test_run2) (simp_all add: jobs2_def)
  have "list_all (\<lambda>j. 0 \<le> dead j \<and> dead j \<le> 2147483647) jobs2"
    using range by (simp add: list_all_iff)
  then show ?thesis using insertion_sort_ok list_queue_ok 0(1) 3(1) step mm by simp
qed

theorem slot_available_last_job_counterexample:
  "slot_available (fst (getJobScheduling insertion_sort list_queue jobs2)) (length jobs2 - 1) = 1 \<and>
   dead (fst (getJobScheduling insertion_sort list_queue jobs2) ! (length jobs2 - 1)) = 3 \<and>
   dead (fst (getJobScheduling insertion_sort list_queue jobs2) ! (length jobs2 - 1))
     = Max (dead ` set jobs2) \<and>
   slot_available (fst (getJobScheduling insertion_sort list_queue jobs2)) (length jobs2 - 1)
     \<noteq> dead (fst (getJobScheduling insertion_sort list_queue jobs2) ! (length jobs2 - 1))"
  by (simp add: test_run2 slot_available_def) (simp add: jobs2_def)

text \<open>
  C2. The claim that the caller's array is unchanged after the call does not hold: the
  function takes the array by reference and sorts it in place (line 114). On the first
  array of \<^verbatim>\<open>tests\<close>, the caller finds the jobs in the order b, d, a, c, e after the
  call (the second theorem after this text).

  What holds: after the call the caller's array holds the same jobs, rearranged in
  ascending order of deadline; it is the same array as before only if it was in that
  order already. The call has no other effect: the model returns nothing but this array
  and the sequence of identifiers.
\<close>
theorem getJobScheduling_sorts_caller_array:
  assumes "std_sort_ok srt"
  shows "mset (fst (getJobScheduling srt P arr)) = mset arr \<and>
    sorted (map dead (fst (getJobScheduling srt P arr))) \<and>
    (fst (getJobScheduling srt P arr) = arr \<longrightarrow> sorted (map dead arr))"
  using std_sort_mset [OF assms, of arr] std_sort_sorted [OF assms, of arr]
  by (auto simp add: getJobScheduling_def)

theorem getJobScheduling_sorts_caller_array_witness:
  "std_sort_ok insertion_sort \<and>
   mset (fst (getJobScheduling insertion_sort list_queue jobs1)) = mset jobs1 \<and>
   sorted (map dead (fst (getJobScheduling insertion_sort list_queue jobs1))) \<and>
   map job_id (fst (getJobScheduling insertion_sort list_queue jobs1)) = ''bdace''"
  using getJobScheduling_sorts_caller_array [OF insertion_sort_ok, of list_queue jobs1]
    insertion_sort_ok by (simp add: test_run1)

theorem getJobScheduling_mutates_caller_array:
  "fst (getJobScheduling insertion_sort list_queue jobs1) \<noteq> jobs1"
  unfolding test_run1 by (simp add: jobs1_def)

text \<open>
  C3. Feasibility. For every input within the contract of the function (every deadline
  is at least 1, the least deadline the header comment of the source and the data model
  allow), position \<open>p\<close> of the sequence returned, counted from 1 as the slot it stands
  for, is at most the deadline of the job returned at that position.

  The contract is needed: \<open>test_run_nonpositive\<close> shows a job of deadline 0 returned at
  position 1.
\<close>
theorem getJobScheduling_feasible:
  assumes "std_sort_ok srt" and "priority_queue_ok P \<alpha> I" and "\<forall>j \<in> set arr. 1 \<le> dead j"
  shows "snd (getJobScheduling srt P arr) = map job_id (scheduled_jobs srt P arr) \<and>
    (\<forall>p<length (snd (getJobScheduling srt P arr)).
       int (p + 1) \<le> dead (scheduled_jobs srt P arr ! p))"
proof (intro conjI allI impI)
  show "snd (getJobScheduling srt P arr) = map job_id (scheduled_jobs srt P arr)"
    by (rule getJobScheduling_snd)
next
  fix p assume "p < length (snd (getJobScheduling srt P arr))"
  then have p: "p < length (scheduled_jobs srt P arr)" by (simp add: getJobScheduling_snd)
  have nonneg: "\<forall>j \<in> set arr. 0 \<le> dead j" using assms(3) by fastforce
  have "\<forall>t. int (length (filter (\<lambda>j. dead j \<le> t) (scheduled_jobs srt P arr))) \<le> max 0 t"
    using scheduled_jobs_count [OF assms(1,2) nonneg] by blast
  from sorted_position_le [OF scheduled_jobs_sorted [OF assms(1)] this p]
  show "int (p + 1) \<le> dead (scheduled_jobs srt P arr ! p)" .
qed

theorem getJobScheduling_feasible_witness:
  "std_sort_ok insertion_sort \<and> priority_queue_ok list_queue mset (\<lambda>q. True) \<and>
   list_all (\<lambda>j. 1 \<le> dead j) jobs1 \<and>
   snd (getJobScheduling insertion_sort list_queue jobs1) = ''ace'' \<and>
   int (2 + 1) \<le> dead (scheduled_jobs insertion_sort list_queue jobs1 ! 2)"
proof -
  have h: "\<forall>j \<in> set jobs1. 1 \<le> dead j" by (simp add: jobs1_def)
  have "2 < length (snd (getJobScheduling insertion_sort list_queue jobs1))"
    by (simp add: test_run1)
  with getJobScheduling_feasible [OF insertion_sort_ok list_queue_ok h]
  have "int (2 + 1) \<le> dead (scheduled_jobs insertion_sort list_queue jobs1 ! 2)" by blast
  then show ?thesis using insertion_sort_ok list_queue_ok
    by (simp add: test_run1) (simp add: jobs1_def)
qed

text \<open>
  C4. The sequence returned is never longer than the input. For every input within the
  contract (every deadline is at least 1) that holds a job at all, it is no longer than
  the greatest deadline of the input either: the positions 1, 2, ... of the sequence are
  distinct slots among the slots 1 to the greatest deadline.

  The second bound needs the contract: \<open>test_run_nonpositive\<close> returns one job, and the
  greatest deadline there is 0.
\<close>
theorem getJobScheduling_length:
  assumes "std_sort_ok srt" and "priority_queue_ok P \<alpha> I"
  shows "length (snd (getJobScheduling srt P arr)) \<le> length arr \<and>
    ((\<forall>j \<in> set arr. 1 \<le> dead j) \<and> arr \<noteq> [] \<longrightarrow>
       int (length (snd (getJobScheduling srt P arr))) \<le> Max (dead ` set arr))"
proof (intro conjI impI)
  have "size (mset (scheduled_jobs srt P arr)) \<le> size (mset arr)"
    using scheduled_jobs_subset [OF assms] by (rule size_mset_mono)
  then show "length (snd (getJobScheduling srt P arr)) \<le> length arr"
    by (simp add: getJobScheduling_snd)
next
  assume contract: "(\<forall>j \<in> set arr. 1 \<le> dead j) \<and> arr \<noteq> []"
  then have ne: "arr \<noteq> []" and pos: "\<forall>j \<in> set arr. 1 \<le> dead j" by simp_all
  let ?M = "Max (dead ` set arr)"
  have nonneg: "\<forall>j \<in> set arr. 0 \<le> dead j" using pos by fastforce
  have "set (scheduled_jobs srt P arr) \<subseteq> set arr"
    using scheduled_jobs_subset [OF assms, of arr] by (metis set_mset_mono set_mset_mset)
  then have "\<forall>j \<in> set (scheduled_jobs srt P arr). dead j \<le> ?M" by auto
  then have "filter (\<lambda>j. dead j \<le> ?M) (scheduled_jobs srt P arr) = scheduled_jobs srt P arr"
    by (simp add: filter_id_conv)
  with scheduled_jobs_count [OF assms nonneg, of ?M]
  have "int (length (scheduled_jobs srt P arr)) \<le> max 0 ?M" by simp
  moreover have "1 \<le> ?M"
  proof -
    have "hd arr \<in> set arr" using ne by simp
    then have "dead (hd arr) \<le> ?M" by simp
    moreover have "1 \<le> dead (hd arr)" using pos \<open>hd arr \<in> set arr\<close> by blast
    ultimately show ?thesis by simp
  qed
  ultimately show "int (length (snd (getJobScheduling srt P arr))) \<le> ?M"
    by (simp add: getJobScheduling_snd)
qed

theorem getJobScheduling_length_witness:
  "std_sort_ok insertion_sort \<and> priority_queue_ok list_queue mset (\<lambda>q. True) \<and>
   list_all (\<lambda>j. 1 \<le> dead j) jobs1 \<and> jobs1 \<noteq> [] \<and>
   length (snd (getJobScheduling insertion_sort list_queue jobs1)) \<le> length jobs1 \<and>
   int (length (snd (getJobScheduling insertion_sort list_queue jobs1))) \<le> Max (dead ` set jobs1)"
proof -
  have h: "(\<forall>j \<in> set jobs1. 1 \<le> dead j) \<and> jobs1 \<noteq> []" by (simp add: jobs1_def)
  from getJobScheduling_length [OF insertion_sort_ok list_queue_ok, of jobs1] h
  have "length (snd (getJobScheduling insertion_sort list_queue jobs1)) \<le> length jobs1 \<and>
    int (length (snd (getJobScheduling insertion_sort list_queue jobs1))) \<le> Max (dead ` set jobs1)"
    by blast
  then show ?thesis using insertion_sort_ok list_queue_ok h by (simp add: list_all_iff)
qed

text \<open>
  C5. On the second array of \<^verbatim>\<open>tests\<close>, the jobs (x,1,50), (y,2,60), (z,2,20),
  (w,3,30), the function returns exactly the identifiers x, y, w in this order, whatever
  sort and priority queue it runs on, and the profits of the jobs selected add up to 140.
\<close>
theorem getJobScheduling_jobs2:
  assumes "std_sort_ok srt" and "priority_queue_ok P \<alpha> I"
  shows "snd (getJobScheduling srt P jobs2) = ''xyw'' \<and>
    sum_list (map profit (scheduled_jobs srt P jobs2)) = 140"
proof -
  have "length (srt jobs2) = 4" using std_sort_length [OF assms(1), of jobs2] by (simp add: jobs2_def)
  then have "scheduled_jobs srt P jobs2 =
      srt [\<lparr>job_id = CHR ''w'', dead = 3, profit = 30\<rparr>,
           \<lparr>job_id = CHR ''y'', dead = 2, profit = 60\<rparr>,
           \<lparr>job_id = CHR ''x'', dead = 1, profit = 50\<rparr>]"
    using schedule_loop_jobs2 [OF assms] by (simp add: scheduled_jobs_eq)
  also have "\<dots> = [\<lparr>job_id = CHR ''x'', dead = 1, profit = 50\<rparr>,
           \<lparr>job_id = CHR ''y'', dead = 2, profit = 60\<rparr>,
           \<lparr>job_id = CHR ''w'', dead = 3, profit = 30\<rparr>]"
    by (subst std_sort_distinct [OF assms(1)]) simp_all
  finally show ?thesis by (simp add: getJobScheduling_snd)
qed

theorem getJobScheduling_jobs2_witness:
  "std_sort_ok insertion_sort \<and> priority_queue_ok list_queue mset (\<lambda>q. True) \<and>
   snd (getJobScheduling insertion_sort list_queue jobs2) = ''xyw'' \<and>
   sum_list (map profit (scheduled_jobs insertion_sort list_queue jobs2)) = 140"
  using getJobScheduling_jobs2 [OF insertion_sort_ok list_queue_ok] insertion_sort_ok list_queue_ok
  by simp

text \<open>
  C6. On the first array of \<^verbatim>\<open>tests\<close>, the jobs (a,2,100), (b,1,19), (c,2,27),
  (d,1,25), (e,3,15), the function selects exactly the jobs a, c and e and returns them in
  ascending order of deadline, whatever sort and priority queue it runs on. The jobs a and
  c have the same deadline, and the sort decides which comes first: the identifiers
  returned are a, c, e or c, a, e. The profits of the jobs selected add up to 142. With
  the insertion sort the order is a, c, e, the one \<^verbatim>\<open>tests\<close> asserts.
\<close>
theorem getJobScheduling_jobs1:
  assumes "std_sort_ok srt" and "priority_queue_ok P \<alpha> I"
  shows "mset (scheduled_jobs srt P jobs1) =
      {#\<lparr>job_id = CHR ''a'', dead = 2, profit = 100\<rparr>,
        \<lparr>job_id = CHR ''c'', dead = 2, profit = 27\<rparr>,
        \<lparr>job_id = CHR ''e'', dead = 3, profit = 15\<rparr>#} \<and>
    sorted (map dead (scheduled_jobs srt P jobs1)) \<and>
    (snd (getJobScheduling srt P jobs1) = ''ace'' \<or> snd (getJobScheduling srt P jobs1) = ''cae'') \<and>
    sum_list (map profit (scheduled_jobs srt P jobs1)) = 142"
proof -
  let ?a = "\<lparr>job_id = CHR ''a'', dead = 2, profit = 100\<rparr>"
  let ?c = "\<lparr>job_id = CHR ''c'', dead = 2, profit = 27\<rparr>"
  let ?e = "\<lparr>job_id = CHR ''e'', dead = 3, profit = 15\<rparr>"
  let ?r = "scheduled_jobs srt P jobs1"
  have "length (srt jobs1) = 5" using std_sort_length [OF assms(1), of jobs1] by (simp add: jobs1_def)
  then have r: "?r = srt [?e, ?a, ?c]"
    using schedule_loop_jobs1 [OF assms] by (simp add: scheduled_jobs_eq)
  have m: "mset ?r = {#?a, ?c, ?e#}" unfolding r std_sort_mset [OF assms(1)] by simp
  have "map dead ?r = [2, 2, 3]" unfolding r std_sort_dead [OF assms(1)] by simp
  then obtain r0 r1 r2 where l: "?r = [r0, r1, r2]"
    and d: "dead r0 = 2" "dead r1 = 2" "dead r2 = 3"
    by (auto simp: map_eq_Cons_conv)
  have "r2 = ?e"
    using std_sort_filter [OF assms(1), of "\<lambda>j. dead j = 3" "[?e, ?a, ?c]"] d
    unfolding r [symmetric] l by simp
  moreover have "{#r0, r1#} = {#?a, ?c#}"
    using std_sort_filter [OF assms(1), of "\<lambda>j. dead j = 2" "[?e, ?a, ?c]"] d
    unfolding r [symmetric] l by simp
  then have "r0 = ?a \<and> r1 = ?c \<or> r0 = ?c \<and> r1 = ?a"
    by (auto simp: add_eq_conv_ex)
  ultimately have "?r = [?a, ?c, ?e] \<or> ?r = [?c, ?a, ?e]" using l by auto
  then have "(snd (getJobScheduling srt P jobs1) = ''ace'' \<or> snd (getJobScheduling srt P jobs1) = ''cae'')
      \<and> sum_list (map profit ?r) = 142"
    by (auto simp: getJobScheduling_snd)
  then show ?thesis using m scheduled_jobs_sorted [OF assms(1), of P jobs1] by blast
qed

theorem getJobScheduling_jobs1_witness:
  "std_sort_ok insertion_sort \<and> priority_queue_ok list_queue mset (\<lambda>q. True) \<and>
   snd (getJobScheduling insertion_sort list_queue jobs1) = ''ace'' \<and>
   sum_list (map profit (scheduled_jobs insertion_sort list_queue jobs1)) = 142"
  using getJobScheduling_jobs1 [OF insertion_sort_ok list_queue_ok] insertion_sort_ok list_queue_ok
  by (simp add: test_run1)

text \<open>
  C7. On three jobs that all have deadline 1, the function returns exactly one
  identifier, that of a job whose profit no other job of the input exceeds. The first two
  iterations (indices 2 and 1) find \<open>slot_available = 0\<close> and only push their job; the
  iteration of index 0 finds one slot and commits the top of the queue.
\<close>
theorem getJobScheduling_same_deadline:
  assumes srt: "std_sort_ok srt" and ok: "priority_queue_ok P \<alpha> I"
    and len: "length arr = 3" and one: "\<forall>j \<in> set arr. dead j = 1"
  shows "\<exists>j \<in> set arr. (\<forall>k \<in> set arr. profit k \<le> profit j) \<and>
    snd (getJobScheduling srt P arr) = [job_id j]"
proof -
  have l: "length (srt arr) = 3" using std_sort_length [OF srt, of arr] len by simp
  then obtain a0 a1 a2 where s: "srt arr = [a0, a1, a2]"
    by (auto simp: length_Suc_conv numeral_3_eq_3)
  have set: "set arr = {a0, a1, a2}" using std_sort_set [OF srt, of arr] s by simp
  then have d: "dead a0 = 1" "dead a1 = 1" "dead a2 = 1" using one by simp_all
  let ?arr = "[a0, a1, a2]"
  have s2: "slot_available ?arr 2 \<le> 0" and s1: "slot_available ?arr 1 \<le> 0"
    and s0: "slot_available ?arr 0 = 1"
    using d by (simp_all add: slot_available_def)
  have n: "(3::nat) = Suc 2" "(2::nat) = Suc 1" "(1::nat) = Suc 0" by simp_all
  let ?q2 = "pq_push P a2 (pq_new P)"
  let ?q1 = "pq_push P a1 ?q2"
  have step2: "schedule_loop P ?arr (Suc 2) (pq_new P) [] = schedule_loop P ?arr 2 ?q2 []"
    using schedule_loop_skip [OF s2, of P "pq_new P" "[]"] by simp
  have q2: "I ?q2" "\<alpha> ?q2 = {#a2#}"
    using pq_push_ok [OF ok pq_new_ok(1) [OF ok], of a2] pq_new_ok(2) [OF ok] by simp_all
  have step1: "schedule_loop P ?arr (Suc 1) ?q2 [] = schedule_loop P ?arr 1 ?q1 []"
    using schedule_loop_skip [OF s1, of P ?q2 "[]"] by simp
  have q1: "I ?q1" "\<alpha> ?q1 = {#a1, a2#}"
    using pq_push_ok [OF ok q2(1), of a1] q2(2) by simp_all
  from schedule_loop_one [OF ok q1(1) s0, of "[]"] obtain q0 j where
    j: "j \<in># {#a0, a1, a2#}" "\<forall>y \<in># {#a0, a1, a2#}. profit y \<le> profit j"
      "schedule_loop P ?arr (Suc 0) ?q1 [] = schedule_loop P ?arr 0 q0 [j]"
    using q1(2) by auto
  have run: "schedule_loop P ?arr 3 (pq_new P) [] = (q0, [j])"
    using step2 step1 j(3) unfolding n [symmetric] by simp
  have "scheduled_jobs srt P arr = srt (snd (schedule_loop P ?arr 3 (pq_new P) []))"
    unfolding scheduled_jobs_eq l unfolding s by (rule refl)
  also have "\<dots> = [j]" unfolding run by (simp add: std_sort_single [OF srt])
  finally have "scheduled_jobs srt P arr = [j]" .
  then have "snd (getJobScheduling srt P arr) = [job_id j]" by (simp add: getJobScheduling_snd)
  moreover have "j \<in> set arr" using j(1) set by auto
  moreover have "\<forall>k \<in> set arr. profit k \<le> profit j" using j(2) set by auto
  ultimately show ?thesis by blast
qed

theorem getJobScheduling_same_deadline_witness:
  "std_sort_ok insertion_sort \<and> priority_queue_ok list_queue mset (\<lambda>q. True) \<and>
   length jobs3 = 3 \<and> list_all (\<lambda>j. dead j = 1) jobs3 \<and>
   (\<exists>j \<in> set jobs3. list_all (\<lambda>k. profit k \<le> profit j) jobs3 \<and> job_id j = CHR ''q'' \<and>
      snd (getJobScheduling insertion_sort list_queue jobs3) = [job_id j])"
proof -
  have len: "length jobs3 = 3" and one: "\<forall>j \<in> set jobs3. dead j = 1"
    by (simp_all add: jobs3_def)
  from getJobScheduling_same_deadline [OF insertion_sort_ok list_queue_ok len one]
  obtain j where j: "j \<in> set jobs3" "\<forall>k \<in> set jobs3. profit k \<le> profit j"
    "snd (getJobScheduling insertion_sort list_queue jobs3) = [job_id j]" by blast
  have "job_id j = CHR ''q''" using j(3) by (simp add: test_run3)
  moreover have "list_all (\<lambda>k. profit k \<le> profit j) jobs3" using j(2) by (simp add: list_all_iff)
  moreover have "list_all (\<lambda>j. dead j = 1) jobs3" using one by (simp add: list_all_iff)
  ultimately show ?thesis using insertion_sort_ok list_queue_ok len j(1,3) by blast
qed

text \<open>
  C8. The sequence returned is the sequence of the identifiers of \<open>scheduled_jobs\<close>, and
  \<open>scheduled_jobs\<close> is in ascending order of deadline: whenever a returned job precedes
  another one in the output, its deadline is less than or equal to the other's.
\<close>
theorem getJobScheduling_ascending_deadline:
  assumes "std_sort_ok srt"
  shows "snd (getJobScheduling srt P arr) = map job_id (scheduled_jobs srt P arr) \<and>
    (\<forall>m n. m < n \<and> n < length (snd (getJobScheduling srt P arr)) \<longrightarrow>
       dead (scheduled_jobs srt P arr ! m) \<le> dead (scheduled_jobs srt P arr ! n))"
proof (intro conjI allI impI)
  show "snd (getJobScheduling srt P arr) = map job_id (scheduled_jobs srt P arr)"
    by (rule getJobScheduling_snd)
next
  fix m n assume mn: "m < n \<and> n < length (snd (getJobScheduling srt P arr))"
  then have n: "n < length (map dead (scheduled_jobs srt P arr))"
    by (simp add: getJobScheduling_snd)
  have "map dead (scheduled_jobs srt P arr) ! m \<le> map dead (scheduled_jobs srt P arr) ! n"
    using scheduled_jobs_sorted [OF assms] mn n by (intro sorted_nth_mono) auto
  then show "dead (scheduled_jobs srt P arr ! m) \<le> dead (scheduled_jobs srt P arr ! n)"
    using mn n by simp
qed

theorem getJobScheduling_ascending_deadline_witness:
  "std_sort_ok insertion_sort \<and>
   snd (getJobScheduling insertion_sort list_queue jobs1) = ''ace'' \<and>
   dead (scheduled_jobs insertion_sort list_queue jobs1 ! 1)
     \<le> dead (scheduled_jobs insertion_sort list_queue jobs1 ! 2)"
proof -
  have "(1::nat) < 2 \<and> 2 < length (snd (getJobScheduling insertion_sort list_queue jobs1))"
    by (simp add: test_run1)
  with getJobScheduling_ascending_deadline [OF insertion_sort_ok, of list_queue jobs1]
  show ?thesis using insertion_sort_ok by (simp add: test_run1)
qed

text \<open>
  C9. \<^verbatim>\<open>getJobScheduling\<close> applied to an empty sequence of jobs returns an empty
  sequence of identifiers, whatever sort and priority queue it runs on: the sort of an
  empty array is empty, and the loop, which starts at \<open>i = N - 1 = -1\<close>, does not run.
\<close>
theorem getJobScheduling_empty:
  assumes "std_sort_ok srt"
  shows "snd (getJobScheduling srt P []) = []"
  using std_sort_Nil [OF assms] by (simp add: getJobScheduling_def scheduled_jobs_def)

theorem getJobScheduling_empty_witness:
  "std_sort_ok insertion_sort \<and> snd (getJobScheduling insertion_sort list_queue []) = []"
  using getJobScheduling_empty [OF insertion_sort_ok, of list_queue] insertion_sort_ok by simp

text \<open>
  C10. The sequence returned is an injective selection of the input jobs: there is an
  injective map \<open>f\<close> from the positions of the output to the positions of the input
  array such that the identifier at position \<open>p\<close> is the identifier of the input job at
  position \<open>f p\<close>. So no input job contributes more than once, and every identifier
  returned is the identifier of a job of the input.
\<close>
theorem getJobScheduling_injective_selection:
  assumes "std_sort_ok srt" and "priority_queue_ok P \<alpha> I"
  shows "\<exists>f. inj_on f {..<length (snd (getJobScheduling srt P arr))} \<and>
    (\<forall>p<length (snd (getJobScheduling srt P arr)).
       f p < length arr \<and> snd (getJobScheduling srt P arr) ! p = job_id (arr ! f p))"
proof -
  from mset_subset_injection [OF scheduled_jobs_subset [OF assms, of arr]]
  obtain f where f: "inj_on f {..<length (scheduled_jobs srt P arr)}"
    "\<forall>i<length (scheduled_jobs srt P arr). f i < length arr \<and> scheduled_jobs srt P arr ! i = arr ! f i"
    by blast
  show ?thesis using f by (intro exI [of _ f]) (simp add: getJobScheduling_snd)
qed

theorem getJobScheduling_injective_selection_witness:
  "std_sort_ok insertion_sort \<and> priority_queue_ok list_queue mset (\<lambda>q. True) \<and>
   snd (getJobScheduling insertion_sort list_queue jobs1) = ''ace'' \<and>
   (\<exists>f::nat \<Rightarrow> nat. inj_on f {..<3} \<and> f 0 < 5 \<and> f 1 < 5 \<and> f 2 < 5 \<and>
        CHR ''a'' = job_id (jobs1 ! f 0) \<and> CHR ''c'' = job_id (jobs1 ! f 1) \<and>
        CHR ''e'' = job_id (jobs1 ! f 2))"
proof -
  from getJobScheduling_injective_selection [OF insertion_sort_ok list_queue_ok, of jobs1]
  obtain f where f: "inj_on f {..<length (snd (getJobScheduling insertion_sort list_queue jobs1))}"
    "\<forall>p<length (snd (getJobScheduling insertion_sort list_queue jobs1)).
       f p < length jobs1 \<and>
       snd (getJobScheduling insertion_sort list_queue jobs1) ! p = job_id (jobs1 ! f p)"
    by blast
  have len: "length jobs1 = 5" by (simp add: jobs1_def)
  have "f 0 < 5 \<and> CHR ''a'' = job_id (jobs1 ! f 0)" using f(2) [rule_format, of 0] len
    by (simp add: test_run1)
  moreover have "f 1 < 5 \<and> CHR ''c'' = job_id (jobs1 ! f 1)" using f(2) [rule_format, of 1] len
    by (simp add: test_run1)
  moreover have "f 2 < 5 \<and> CHR ''e'' = job_id (jobs1 ! f 2)" using f(2) [rule_format, of 2] len
    by (simp add: test_run1)
  moreover have "inj_on f {..<3}" using f(1) by (simp add: test_run1 numeral_3_eq_3)
  ultimately show ?thesis using insertion_sort_ok list_queue_ok
    by (intro conjI exI [of _ f]) (simp_all add: test_run1)
qed

end
